theory Spec2Isabelle
  imports Main "HOL-Library.AList" "HOL-Library.Multiset"
begin

unbundle bit_operations_syntax

section \<open>The scenario player's utilities (scenario\_player/utils.py)\<close>

text \<open>
  A shallow embedding of \<^verbatim>\<open>tools/scenario-player/scenario_player/utils.py\<close>.
  Python exceptions are values of a sum type (\<open>Inl\<close> the exception), objects that are
  mutated are passed in and returned, and everything the functions read from outside
  (the clock, the chain client, the random token id) is an explicit argument.
\<close>

subsection \<open>Exceptions\<close>

datatype error =
    TypeError string
  | ValueError string
  | IndexError
  | AttributeError
  | ScenarioTxError string
  | ClientError
  | AddressWithoutCode string

subsection \<open>get\_gas\_price\_strategy\<close>

text \<open>
  The argument is any Python value: an \<open>int\<close>, a \<open>str\<close>, or something else, which
  is kept with its \<open>str()\<close> rendering, the only thing the function reads of it (a
  value that is no \<open>str\<close> equals neither \<open>'fast'\<close> nor \<open>'medium'\<close>).
  A strategy is a function of \<open>(web3, tx)\<close>; the two named strategies come from the
  web3 library and are parameters.
\<close>

datatype gas_price = IntPrice int | StrPrice string | OtherPrice string

definition fixed_gas_price :: "int \<Rightarrow> 'w \<Rightarrow> 't \<Rightarrow> int" where
  "fixed_gas_price gas_price web3 tx = gas_price"

definition invalid_gas_price :: "string \<Rightarrow> error" where
  "invalid_gas_price rendering = ValueError (''Invalid gas_price value: \"'' @ rendering @ ''\"'')"

definition get_gas_price_strategy ::
  "('w \<Rightarrow> 't \<Rightarrow> int) \<Rightarrow> ('w \<Rightarrow> 't \<Rightarrow> int) \<Rightarrow> gas_price \<Rightarrow> error + ('w \<Rightarrow> 't \<Rightarrow> int)" where
  "get_gas_price_strategy fast_gas_price_strategy medium_gas_price_strategy gas_price =
     (case gas_price of
        IntPrice n \<Rightarrow> Inr (fixed_gas_price n)
      | StrPrice v \<Rightarrow>
         if v = ''fast'' then Inr fast_gas_price_strategy
         else if v = ''medium'' then Inr medium_gas_price_strategy
         else Inl (invalid_gas_price v)
      | OtherPrice rendering \<Rightarrow> Inl (invalid_gas_price rendering))"

subsection \<open>FrozenDict\<close>

text \<open>
  A \<open>dict\<close> is an association list in insertion order with distinct keys; the
  subclass adds the cached hash \<open>_hash\<close>. \<open>hash((k, v))\<close> is Python's hash of a
  pair, a parameter. Every method returns its outcome and the object afterwards.
  The model has the methods the class defines; those it inherits from \<open>dict\<close>
  untouched (\<open>pop\<close>, \<open>popitem\<close>, \<open>setdefault\<close>) are not part of it.
\<close>

record ('k, 'v) FrozenDict =
  items :: "('k \<times> 'v) list"
  hash_cache :: "int option"

definition dict_of :: "('k \<times> 'v) list \<Rightarrow> ('k \<times> 'v) list" where
  "dict_of ps = fold (\<lambda>(k, v). AList.update k v) ps []"

definition FrozenDict_init :: "('k \<times> 'v) list \<Rightarrow> ('k, 'v) FrozenDict" where
  "FrozenDict_init ps = \<lparr>items = dict_of ps, hash_cache = None\<rparr>"

definition compute_hash :: "('k \<times> 'v \<Rightarrow> int) \<Rightarrow> ('k \<times> 'v) list \<Rightarrow> int" where
  "compute_hash hash_pair kvs = fold (\<lambda>kv h. h XOR hash_pair kv) kvs 0"

definition FrozenDict_hash ::
  "('k \<times> 'v \<Rightarrow> int) \<Rightarrow> ('k, 'v) FrozenDict \<Rightarrow> int \<times> ('k, 'v) FrozenDict" where
  "FrozenDict_hash hash_pair d =
     (case hash_cache d of
        None \<Rightarrow> (let h = compute_hash hash_pair (items d) in (h, d\<lparr>hash_cache := Some h\<rparr>))
      | Some h \<Rightarrow> (h, d))"

definition FrozenDict_setitem ::
  "('k, 'v) FrozenDict \<Rightarrow> 'k \<Rightarrow> 'v \<Rightarrow> (error + unit) \<times> ('k, 'v) FrozenDict" where
  "FrozenDict_setitem d k v = (Inl (TypeError ''FrozenDict is immutable''), d)"

definition FrozenDict_delitem ::
  "('k, 'v) FrozenDict \<Rightarrow> 'k \<Rightarrow> (error + unit) \<times> ('k, 'v) FrozenDict" where
  "FrozenDict_delitem d k = (Inl (TypeError ''FrozenDict is immutable''), d)"

definition FrozenDict_update ::
  "('k, 'v) FrozenDict \<Rightarrow> ('k \<times> 'v) list \<Rightarrow> (error + unit) \<times> ('k, 'v) FrozenDict" where
  "FrozenDict_update d ps = (Inl (TypeError ''FrozenDict is immutable''), d)"

definition FrozenDict_clear ::
  "('k, 'v) FrozenDict \<Rightarrow> (error + unit) \<times> ('k, 'v) FrozenDict" where
  "FrozenDict_clear d = (Inl (TypeError ''FrozenDict is immutable''), d)"

text \<open>A caller's attempts on one object, each caught or not, in sequence.\<close>

datatype ('k, 'v) dict_op =
    SetItem 'k 'v
  | DelItem 'k
  | Update "('k \<times> 'v) list"
  | Clear
  | Hash

fun dict_call ::
  "('k \<times> 'v \<Rightarrow> int) \<Rightarrow> ('k, 'v) FrozenDict \<Rightarrow> ('k, 'v) dict_op \<Rightarrow>
     (error + int option) \<times> ('k, 'v) FrozenDict" where
  "dict_call hp d (SetItem k v) = map_prod (map_sum id (\<lambda>_. None)) id (FrozenDict_setitem d k v)"
| "dict_call hp d (DelItem k) = map_prod (map_sum id (\<lambda>_. None)) id (FrozenDict_delitem d k)"
| "dict_call hp d (Update ps) = map_prod (map_sum id (\<lambda>_. None)) id (FrozenDict_update d ps)"
| "dict_call hp d Clear = map_prod (map_sum id (\<lambda>_. None)) id (FrozenDict_clear d)"
| "dict_call hp d Hash = map_prod (\<lambda>h. Inr (Some h)) id (FrozenDict_hash hp d)"

definition dict_calls ::
  "('k \<times> 'v \<Rightarrow> int) \<Rightarrow> ('k, 'v) FrozenDict \<Rightarrow> ('k, 'v) dict_op list \<Rightarrow> ('k, 'v) FrozenDict" where
  "dict_calls hp d cs = fold (\<lambda>c d. snd (dict_call hp d c)) cs d"

text \<open>The cache, once filled, holds the hash of the items.\<close>

definition cache_ok :: "('k \<times> 'v \<Rightarrow> int) \<Rightarrow> ('k, 'v) FrozenDict \<Rightarrow> bool" where
  "cache_ok hp d = (hash_cache d = None \<or> hash_cache d = Some (compute_hash hp (items d)))"

subsection \<open>LogBuffer\<close>

text \<open>
  \<open>deque(maxlen=capacity)\<close> is the list of its elements, index 0 first, with its
  bound. \<open>appendleft\<close> on a full deque drops the element at the right end; a deque
  of bound 0 stays empty.
\<close>

record LogBuffer =
  buffer :: "string list"
  maxlen :: nat

definition deque_init :: "string list \<Rightarrow> nat \<Rightarrow> string list" where
  "deque_init xs n = drop (length xs - n) xs"

definition appendleft :: "nat \<Rightarrow> string \<Rightarrow> string list \<Rightarrow> string list" where
  "appendleft n x d = take n (x # d)"

definition extendleft :: "nat \<Rightarrow> string list \<Rightarrow> string list \<Rightarrow> string list" where
  "extendleft n xs d = fold (appendleft n) xs d"

definition LogBuffer_init :: "nat \<Rightarrow> LogBuffer" where
  "LogBuffer_init capacity = \<lparr>buffer = deque_init [''''] capacity, maxlen = capacity\<rparr>"

definition LogBuffer_default :: LogBuffer where
  "LogBuffer_default = LogBuffer_init 1000"

text \<open>
  \<open>str.splitlines()\<close> on the characters a \<open>char\<close> can hold: a line ends at
  \<open>\n\<close>, \<open>\r\<close>, \<open>\r\n\<close>, \<open>\v\<close>, \<open>\f\<close>, the separators \<open>0x1c\<close> to \<open>0x1e\<close>
  and \<open>0x85\<close>; the line ends are dropped and no empty last line is produced.
\<close>

definition linebreak :: "char \<Rightarrow> bool" where
  "linebreak c = (of_char c \<in> {10, 11, 12, 13, 28, 29, 30, 133 :: nat})"

fun split_from :: "string \<Rightarrow> string \<Rightarrow> string list" where
  "split_from cur [] = (if cur = [] then [] else [rev cur])"
| "split_from cur (c # cs) =
     (if linebreak c then
        rev cur # (case cs of
            c' # cs' \<Rightarrow> if of_char c = (13::nat) \<and> of_char c' = (10::nat)
                        then split_from [] cs' else split_from [] cs
          | [] \<Rightarrow> split_from [] cs)
      else split_from (c # cur) cs)"

definition splitlines :: "string \<Rightarrow> string list" where
  "splitlines s = split_from [] s"

definition LogBuffer_write :: "LogBuffer \<Rightarrow> string \<Rightarrow> (error + unit) \<times> LogBuffer" where
  "LogBuffer_write b content =
     (let lines = splitlines content in
      case buffer b of
        [] \<Rightarrow> (Inl IndexError, b)
      | b0 # bs \<Rightarrow>
         (case lines of
            [] \<Rightarrow> (Inl IndexError, b)
          | l0 # ls \<Rightarrow>
             (let d = (b0 @ l0) # bs in
              if lines = [''''] then (Inr (), b\<lparr>buffer := appendleft (maxlen b) '''' d\<rparr>)
              else (Inr (), b\<lparr>buffer := extendleft (maxlen b) ls d\<rparr>))))"

definition LogBuffer_writes :: "LogBuffer \<Rightarrow> string list \<Rightarrow> LogBuffer" where
  "LogBuffer_writes b cs = fold (\<lambda>c b. snd (LogBuffer_write b c)) cs b"

subsection \<open>wait\_for\_txs\<close>

text \<open>
  What the waiter reads from outside is the monotonic clock and the chain client.
  Times are in milliseconds. A query for hash \<open>h\<close> issued at time \<open>t\<close> takes
  \<open>latency h t\<close> and either returns a transaction (or \<open>None\<close>) or raises;
  \<open>time.sleep(d)\<close> started at \<open>t\<close> lasts \<open>d + oversleep t\<close>; and after
  \<open>time.monotonic()\<close> has answered \<open>t\<close>, the time \<open>tick t\<close> passes before the
  waiter's next call, so that two readings of the clock need not agree. Since every
  query that returns is followed by a sleep, two queries never share a time, so a
  client whose answers depend on the time covers every sequence of answers.
\<close>

type_synonym txhash = string

datatype tx = Tx (blockNumber: "nat option")

datatype reply = Returns "tx option" | Raises

record env =
  getTransaction :: "txhash \<Rightarrow> int \<Rightarrow> reply"
  latency :: "txhash \<Rightarrow> int \<Rightarrow> nat"
  oversleep :: "int \<Rightarrow> nat"
  tick :: "int \<Rightarrow> nat"

text \<open>
  The calls that leave the process are recorded in order: each reading of the clock
  with its answer, each \<open>log.debug\<close> entry with its \<open>outstanding\<close> and
  \<open>timeout_remaining\<close> fields, each query with the time it was issued at and its
  outcome, each sleep with its start and the time asked for.
\<close>

datatype event =
    Monotonic int
  | LogDebug nat int
  | GetTransaction int txhash reply
  | Sleep int nat

text \<open>
  List objects live in a store and are named by their address (their index in
  \<open>heap\<close>); a new object is allocated at the end. The caller passes the address of its
  list.
\<close>

type_synonym addr = nat

record state =
  heap :: "txhash list list"
  now :: int
  trace :: "event list"

definition monotonic :: "env \<Rightarrow> state \<Rightarrow> int \<times> state" where
  "monotonic e s =
     (now s, s\<lparr>now := now s + int (tick e (now s)), trace := trace s @ [Monotonic (now s)]\<rparr>)"

definition sleep :: "env \<Rightarrow> nat \<Rightarrow> state \<Rightarrow> state" where
  "sleep e d s =
     s\<lparr>now := now s + int d + int (oversleep e (now s)), trace := trace s @ [Sleep (now s) d]\<rparr>"

definition eth_getTransaction :: "env \<Rightarrow> txhash \<Rightarrow> state \<Rightarrow> reply \<times> state" where
  "eth_getTransaction e h s =
     (getTransaction e h (now s),
      s\<lparr>now := now s + int (latency e h (now s)),
        trace := trace s @ [GetTransaction (now s) h (getTransaction e h (now s))]\<rparr>)"

definition log_debug :: "nat \<Rightarrow> int \<Rightarrow> state \<Rightarrow> state" where
  "log_debug outstanding timeout_remaining s =
     s\<lparr>trace := trace s @ [LogDebug outstanding timeout_remaining]\<rparr>"

definition list_copy :: "addr \<Rightarrow> state \<Rightarrow> addr \<times> state" where
  "list_copy a s = (length (heap s), s\<lparr>heap := heap s @ [heap s ! a]\<rparr>)"

definition list_remove :: "addr \<Rightarrow> txhash \<Rightarrow> state \<Rightarrow> (error + unit) \<times> state" where
  "list_remove b h s =
     (if h \<in> set (heap s ! b)
      then (Inr (), s\<lparr>heap := (heap s)[b := remove1 h (heap s ! b)]\<rparr>)
      else (Inl (ValueError ''list.remove(x): x not in list''), s))"

definition included :: "tx option \<Rightarrow> bool" where
  "included t = (case t of None \<Rightarrow> False | Some x \<Rightarrow> blockNumber x \<noteq> None)"

text \<open>\<open>int(x)\<close> of a time in seconds, given in milliseconds: truncation towards zero.\<close>

definition int_secs :: "int \<Rightarrow> int" where
  "int_secs ms = (if 0 \<le> ms then ms div 1000 else - ((- ms) div 1000))"

fun join :: "string \<Rightarrow> string list \<Rightarrow> string" where
  "join sep [] = []"
| "join sep [x] = x"
| "join sep (x # y # ys) = x @ sep @ join sep (y # ys)"

text \<open>
  The \<open>for\<close> loop of lines 107 to 111 over the copy \<open>txhashes[:]\<close>, a temporary that
  nothing else refers to and that is passed as a value; \<open>b\<close> is the address of the
  list \<open>txhashes\<close> that \<open>remove\<close> mutates.
\<close>

fun poll :: "env \<Rightarrow> addr \<Rightarrow> txhash list \<Rightarrow> state \<Rightarrow> (error + unit) \<times> state" where
  "poll e b [] s = (Inr (), s)"
| "poll e b (txhash # rest) s =
     (case eth_getTransaction e txhash s of
        (Raises, s1) \<Rightarrow> (Inl ClientError, s1)
      | (Returns t, s1) \<Rightarrow>
          (if included t then
             (case list_remove b txhash s1 of
                (Inl err, s2) \<Rightarrow> (Inl err, s2)
              | (Inr u, s2) \<Rightarrow> poll e b rest (sleep e 100 s2))
           else poll e b rest (sleep e 100 s1)))"

text \<open>
  Lines 99 to 106: the clock is read again, and the status entry is written when
  the count has changed or the whole seconds remaining are a multiple of 10.
  \<open>outstanding\<close> starts as \<open>False\<close>, which Python compares to a length as the
  number 0.
\<close>

definition status :: "addr \<Rightarrow> env \<Rightarrow> int \<Rightarrow> int \<Rightarrow> nat \<Rightarrow> state \<Rightarrow> nat \<times> state" where
  "status b e start timeout outstanding s =
     (let (t2, sb) = monotonic e s;
          remaining_timeout = timeout - (t2 - start)
      in if outstanding \<noteq> length (heap sb ! b) \<or> int_secs remaining_timeout mod 10 = 0
         then (length (heap sb ! b),
               log_debug (length (heap sb ! b)) (int_secs remaining_timeout) sb)
         else (outstanding, sb))"

text \<open>
  The \<open>while\<close> loop of lines 98 to 112. Its condition reads the clock unless the
  list is empty.
\<close>

partial_function (option) wait_loop ::
  "env \<Rightarrow> addr \<Rightarrow> int \<Rightarrow> int \<Rightarrow> nat \<Rightarrow> state \<Rightarrow> ((error + unit) \<times> state) option" where
  "wait_loop e b start timeout outstanding s =
     (if heap s ! b = [] then Some (Inr (), s)
      else
        (let (t1, sa) = monotonic e s in
         if t1 - start < timeout then
           (let (outstanding', s1) = status b e start timeout outstanding sa
            in case poll e b (heap s1 ! b) s1 of
                 (Inl err, s2) \<Rightarrow> Some (Inl err, s2)
               | (Inr u, s2) \<Rightarrow> wait_loop e b start timeout outstanding' (sleep e 500 s2))
         else Some (Inr (), sa)))"

declare wait_loop.simps [code]

definition timeout_message :: "txhash list \<Rightarrow> string" where
  "timeout_message txhashes = ''Timeout waiting for txhashes: '' @ join '', '' txhashes"

definition wait_for_txs ::
  "env \<Rightarrow> addr \<Rightarrow> int \<Rightarrow> state \<Rightarrow> ((error + unit) \<times> state) option" where
  "wait_for_txs e txhashes timeout s =
     (let (start, s0) = monotonic e s;
          (b, s1) = list_copy txhashes s0
      in case wait_loop e b start timeout 0 s1 of
           None \<Rightarrow> None
         | Some (Inl err, s2) \<Rightarrow> Some (Inl err, s2)
         | Some (Inr u, s2) \<Rightarrow>
             (if length (heap s2 ! b) \<noteq> 0
              then Some (Inl (ScenarioTxError (timeout_message (heap s2 ! b))), s2)
              else Some (Inr (), s2)))"

definition wait_for_txs_default :: "env \<Rightarrow> addr \<Rightarrow> state \<Rightarrow> ((error + unit) \<times> state) option" where
  "wait_for_txs_default e txhashes s = wait_for_txs e txhashes 180000 s"

text \<open>What a run added to the record, and what it tells.\<close>

fun seen_included :: "event list \<Rightarrow> txhash list" where
  "seen_included [] = []"
| "seen_included (GetTransaction t h (Returns r) # evs) =
     (if included r then h # seen_included evs else seen_included evs)"
| "seen_included (ev # evs) = seen_included evs"

fun raised :: "event list \<Rightarrow> bool" where
  "raised [] = False"
| "raised (GetTransaction t h Raises # evs) = True"
| "raised (ev # evs) = raised evs"

definition unconfirmed :: "event list \<Rightarrow> txhash list \<Rightarrow> txhash list" where
  "unconfirmed evs txhashes = filter (\<lambda>h. h \<notin> set (seen_included evs)) txhashes"

definition events_of :: "state \<Rightarrow> state \<Rightarrow> event list" where
  "events_of s s' = drop (length (trace s)) (trace s')"

text \<open>
  What one pass of the \<open>for\<close> loop, and the \<open>while\<close> loop as a whole, leave behind
  when they add the events \<open>evs\<close>: the list at \<open>b\<close> has lost exactly the hashes seen
  as included, and a raising query is the last event.
\<close>

definition pass_post ::
  "addr \<Rightarrow> txhash list \<Rightarrow> state \<Rightarrow> (error + unit) \<Rightarrow> state \<Rightarrow> event list \<Rightarrow> bool" where
  "pass_post b hs s r s' evs =
     (trace s' = trace s @ evs
      \<and> heap s' = (heap s)[b := unconfirmed evs (heap s ! b)]
      \<and> set (seen_included evs) \<subseteq> set hs
      \<and> now s \<le> now s'
      \<and> (case r of
            Inr u \<Rightarrow> \<not> raised evs
          | Inl err \<Rightarrow> err = ClientError \<and> raised evs \<and> heap s' ! b \<noteq> []
                \<and> (\<exists>t h. evs \<noteq> [] \<and> last evs = GetTransaction t h Raises)))"

definition loop_post ::
  "addr \<Rightarrow> int \<Rightarrow> int \<Rightarrow> state \<Rightarrow> (error + unit) \<Rightarrow> state \<Rightarrow> event list \<Rightarrow> bool" where
  "loop_post b start timeout s r s' evs =
     (trace s' = trace s @ evs
      \<and> heap s' = (heap s)[b := unconfirmed evs (heap s ! b)]
      \<and> now s \<le> now s'
      \<and> (case r of
            Inr u \<Rightarrow> \<not> raised evs \<and> (heap s' ! b = [] \<or> timeout \<le> now s' - start)
          | Inl err \<Rightarrow> err = ClientError \<and> raised evs \<and> heap s' ! b \<noteq> []
                \<and> (\<exists>t h. evs \<noteq> [] \<and> last evs = GetTransaction t h Raises)))"









text \<open>
  Two runs used below. The caller holds the list \<open>[tx1, tx2]\<close> at address 0 and the
  clock reads 0. One client has \<open>tx1\<close> included from the start and \<open>tx2\<close> from
  1500 ms on, so that the fourth poll of \<open>tx2\<close> is the first to see it; the other
  raises on the query issued at time 0 and would report inclusion ever after.
\<close>

definition two_hashes :: state where
  "two_hashes = \<lparr>heap = [[''tx1'', ''tx2'']], now = 0, trace = []\<rparr>"

definition confirms_tx2_late :: env where
  "confirms_tx2_late =
     \<lparr>getTransaction = (\<lambda>h t. if h = ''tx1'' \<or> 1500 \<le> t then Returns (Some (Tx (Some 7)))
                               else Returns (Some (Tx None))),
      latency = (\<lambda>h t. 0), oversleep = (\<lambda>t. 0), tick = (\<lambda>t. 0)\<rparr>"

definition fails_once :: env where
  "fails_once =
     \<lparr>getTransaction = (\<lambda>h t. if t = 0 then Raises else Returns (Some (Tx (Some 7)))),
      latency = (\<lambda>h t. 0), oversleep = (\<lambda>t. 0), tick = (\<lambda>t. 0)\<rparr>"

text \<open>
  A client that answers every query before 1000 ms with a transaction not yet in a
  block, takes 400 ms over the query issued at 700 ms, and raises from 1000 ms on.
\<close>

definition fails_late :: env where
  "fails_late =
     \<lparr>getTransaction = (\<lambda>h t. if t < 1000 then Returns (Some (Tx None)) else Raises),
      latency = (\<lambda>h t. if t = 700 then 400 else 0), oversleep = (\<lambda>t. 0), tick = (\<lambda>t. 0)\<rparr>"




subsection \<open>get\_or\_deploy\_token\<close>























section \<open>Properties\<close>

subsection \<open>get\_gas\_price\_strategy\<close>

text \<open>
  C10. \<open>get_gas_price_strategy\<close> returns, for an integer, a strategy that answers that
  integer for every \<open>(web3, tx)\<close>; for \<open>'fast'\<close> and \<open>'medium'\<close> the strategy of that
  name; and for every other value it raises \<open>ValueError\<close>.
\<close>

theorem get_gas_price_strategy_total:
  "(\<forall>n. \<exists>f. get_gas_price_strategy fast medium (IntPrice n) = Inr f \<and> (\<forall>web3 tx. f web3 tx = n))
   \<and> get_gas_price_strategy fast medium (StrPrice ''fast'') = Inr fast
   \<and> get_gas_price_strategy fast medium (StrPrice ''medium'') = Inr medium
   \<and> (\<forall>v. v \<noteq> ''fast'' \<and> v \<noteq> ''medium'' \<longrightarrow>
        get_gas_price_strategy fast medium (StrPrice v) =
          Inl (ValueError (''Invalid gas_price value: \"'' @ v @ ''\"'')))
   \<and> (\<forall>r. get_gas_price_strategy fast medium (OtherPrice r) =
          Inl (ValueError (''Invalid gas_price value: \"'' @ r @ ''\"'')))"
  by (simp add: get_gas_price_strategy_def fixed_gas_price_def invalid_gas_price_def)

theorem get_gas_price_strategy_total_witness:
  "''slow'' \<noteq> ''fast'' \<and> ''slow'' \<noteq> ''medium''
   \<and> get_gas_price_strategy (\<lambda>(w::unit) (t::unit). 2) (\<lambda>w t. 1) (StrPrice ''slow'') =
       Inl (ValueError ''Invalid gas_price value: \"slow\"'')
   \<and> (\<exists>f. get_gas_price_strategy (\<lambda>(w::unit) (t::unit). 2) (\<lambda>w t. 1) (IntPrice 20) = Inr f
         \<and> f () () = 20)"
  using get_gas_price_strategy_total [of "\<lambda>(w::unit) (t::unit). 2" "\<lambda>w t. 1"]
  by simp

subsection \<open>FrozenDict\<close>

lemma distinct_fold_update:
  "distinct (map fst al) \<Longrightarrow> distinct (map fst (fold (\<lambda>(k, v). AList.update k v) ps al))"
  by (induction ps arbitrary: al) (auto simp: distinct_update)

lemma distinct_dict_of: "distinct (map fst (dict_of ps))"
  unfolding dict_of_def by (rule distinct_fold_update) simp

lemma compute_hash_order:
  assumes "distinct xs" "distinct ys" "set xs = set ys"
  shows "compute_hash hp xs = compute_hash hp ys"
proof -
  have m: "mset xs = mset ys"
    using assms by (simp add: set_eq_iff_mset_eq_distinct)
  have "fold (\<lambda>kv h. h XOR hp kv) xs = fold (\<lambda>kv h. h XOR hp kv) ys"
    by (rule fold_multiset_equiv[OF _ m]) (simp add: fun_eq_iff ac_simps)
  then show ?thesis by (simp add: compute_hash_def)
qed

lemma dict_call_inv:
  "cache_ok hp d \<Longrightarrow>
   cache_ok hp (snd (dict_call hp d c)) \<and> items (snd (dict_call hp d c)) = items d"
  by (cases c)
    (auto simp: cache_ok_def FrozenDict_hash_def FrozenDict_setitem_def FrozenDict_delitem_def
      FrozenDict_update_def FrozenDict_clear_def Let_def split: option.splits)

lemma dict_calls_inv:
  "cache_ok hp d \<Longrightarrow> cache_ok hp (dict_calls hp d cs) \<and> items (dict_calls hp d cs) = items d"
  unfolding dict_calls_def
proof (induction cs arbitrary: d)
  case Nil
  then show ?case by simp
next
  case (Cons c cs)
  from dict_call_inv[OF Cons.prems, of c] Cons.IH[of "snd (dict_call hp d c)"]
  show ?case by simp
qed

lemma hash_value: "cache_ok hp d \<Longrightarrow> fst (FrozenDict_hash hp d) = compute_hash hp (items d)"
  by (auto simp: cache_ok_def FrozenDict_hash_def Let_def)

lemma init_ok: "cache_ok hp (FrozenDict_init ps)"
  by (simp add: cache_ok_def FrozenDict_init_def)

text \<open>
  C8. On every FrozenDict, \<open>__setitem__\<close>, \<open>__delitem__\<close>, \<open>update\<close> and \<open>clear\<close>
  raise \<open>TypeError\<close> and leave the object as it was; after any sequence of such
  attempts and of hash calls the items are those given at construction; two
  FrozenDicts with the same set of items have the same hash, whatever the order of
  insertion; and a second call of \<open>__hash__\<close> answers what the first did.
\<close>

theorem FrozenDict_immutable:
  "(\<forall>k v. FrozenDict_setitem d k v = (Inl (TypeError ''FrozenDict is immutable''), d))
  \<and> (\<forall>k. FrozenDict_delitem d k = (Inl (TypeError ''FrozenDict is immutable''), d))
  \<and> (\<forall>qs. FrozenDict_update d qs = (Inl (TypeError ''FrozenDict is immutable''), d))
  \<and> FrozenDict_clear d = (Inl (TypeError ''FrozenDict is immutable''), d)
  \<and> items (dict_calls hp (FrozenDict_init ps) cs) = dict_of ps
  \<and> (set (dict_of ps) = set (dict_of qs) \<longrightarrow>
       fst (FrozenDict_hash hp (dict_calls hp (FrozenDict_init ps) cs))
     = fst (FrozenDict_hash hp (dict_calls hp (FrozenDict_init qs) cs')))
  \<and> fst (FrozenDict_hash hp (snd (FrozenDict_hash hp (dict_calls hp (FrozenDict_init ps) cs))))
    = fst (FrozenDict_hash hp (dict_calls hp (FrozenDict_init ps) cs))"
proof -
  have i: "items (dict_calls hp (FrozenDict_init ps) cs) = dict_of ps" for ps cs
    using dict_calls_inv[OF init_ok, of hp ps cs] by (simp add: FrozenDict_init_def)
  have h: "fst (FrozenDict_hash hp (dict_calls hp (FrozenDict_init ps) cs))
      = compute_hash hp (dict_of ps)" for ps cs
    using dict_calls_inv[OF init_ok, of hp ps cs]
      hash_value[of hp "dict_calls hp (FrozenDict_init ps) cs"]
    by (simp add: FrozenDict_init_def)
  have o: "set (dict_of ps) = set (dict_of qs) \<Longrightarrow>
      compute_hash hp (dict_of ps) = compute_hash hp (dict_of qs)"
    by (rule compute_hash_order)
      (use distinct_dict_of[of ps] distinct_dict_of[of qs] in \<open>auto simp: distinct_map\<close>)
  have s: "fst (FrozenDict_hash hp (snd (FrozenDict_hash hp (dict_calls hp (FrozenDict_init ps) cs))))
    = fst (FrozenDict_hash hp (dict_calls hp (FrozenDict_init ps) cs))"
    using h[of ps "cs @ [Hash]"] h[of ps cs] by (simp add: dict_calls_def)
  show ?thesis
    using i h o s
    by (simp add: FrozenDict_setitem_def FrozenDict_delitem_def FrozenDict_update_def
        FrozenDict_clear_def)
qed

theorem FrozenDict_immutable_witness:
  "set (dict_of [(1::nat, 2::nat), (3, 4), (1, 5)]) = set (dict_of [(3, 4), (1, 5)])
   \<and> dict_of [(1::nat, 2::nat), (3, 4), (1, 5)] \<noteq> dict_of [(3, 4), (1, 5)]
   \<and> fst (FrozenDict_hash (\<lambda>(k, v). int (k * 7 + v))
        (dict_calls (\<lambda>(k, v). int (k * 7 + v))
           (FrozenDict_init [(1::nat, 2::nat), (3, 4), (1, 5)]) [Hash, Clear]))
     = fst (FrozenDict_hash (\<lambda>(k, v). int (k * 7 + v))
        (dict_calls (\<lambda>(k, v). int (k * 7 + v)) (FrozenDict_init [(3, 4), (1, 5)]) [SetItem 1 2]))"
proof -
  have h: "set (dict_of [(1::nat, 2::nat), (3, 4), (1, 5)]) = set (dict_of [(3, 4), (1, 5)])"
    by (simp add: dict_of_def insert_commute)
  have n: "dict_of [(1::nat, 2::nat), (3, 4), (1, 5)] \<noteq> dict_of [(3, 4), (1, 5)]"
    by (simp add: dict_of_def)
  from h n
    FrozenDict_immutable[of "FrozenDict_init []" "\<lambda>(k, v). int (k * 7 + v)"
      "[(1::nat, 2::nat), (3, 4), (1, 5)]" "[Hash, Clear]" "[(3, 4), (1, 5)]" "[SetItem 1 2]"]
  show ?thesis by blast
qed

subsection \<open>LogBuffer\<close>

lemma length_appendleft: "length (appendleft n x d) \<le> n"
  by (simp add: appendleft_def)

lemma extendleft_take: "length d \<le> n \<Longrightarrow> extendleft n xs d = take n (rev xs @ d)"
  unfolding extendleft_def
proof (induction xs arbitrary: d)
  case Nil
  then show ?case by simp
next
  case (Cons x xs)
  have "fold (appendleft n) xs (appendleft n x d) = take n (rev xs @ appendleft n x d)"
    by (rule Cons.IH) (rule length_appendleft)
  also have "\<dots> = take n (rev xs @ x # d)"
    by (simp add: appendleft_def min_def)
  finally show ?case by simp
qed

lemma write_bounded:
  "maxlen b = n \<Longrightarrow> length (buffer b) \<le> n \<Longrightarrow>
   length (buffer (snd (LogBuffer_write b c))) \<le> n \<and> maxlen (snd (LogBuffer_write b c)) = n"
  by (auto simp: LogBuffer_write_def Let_def length_appendleft extendleft_take
      split: list.splits)

lemma writes_bounded:
  "maxlen b = n \<Longrightarrow> length (buffer b) \<le> n \<Longrightarrow>
   length (buffer (LogBuffer_writes b cs)) \<le> n \<and> maxlen (LogBuffer_writes b cs) = n"
  unfolding LogBuffer_writes_def
proof (induction cs arbitrary: b)
  case Nil
  then show ?case by simp
next
  case (Cons c cs)
  from write_bounded[OF Cons.prems] show ?case
    using Cons.IH[of "snd (LogBuffer_write b c)"] by simp
qed

text \<open>
  C9. A LogBuffer of capacity \<open>N\<close> (1000 when none is given) never holds more than
  \<open>N\<close> lines, whatever is written to it: a write of content with lines
  \<open>l0, l1, ..., lk\<close> extends the newest line by \<open>l0\<close> and puts the others in front of it,
  newest first, and the deque keeps the first \<open>N\<close>, dropping the oldest (a write of
  a bare line end starts an empty newest line).
\<close>

theorem LogBuffer_bounded:
  "length (buffer (LogBuffer_writes (LogBuffer_init N) cs)) \<le> N
   \<and> length (buffer (LogBuffer_writes LogBuffer_default cs)) \<le> 1000
   \<and> (buffer b = b0 # bs \<and> length (buffer b) \<le> maxlen b \<and> splitlines c = l0 # ls \<longrightarrow>
        LogBuffer_write b c =
          (Inr (), b\<lparr>buffer := take (maxlen b)
                      ((if l0 # ls = [''''] then [''''] else rev ls) @ (b0 @ l0) # bs)\<rparr>))"
proof -
  have 1: "length (buffer (LogBuffer_writes (LogBuffer_init N) cs)) \<le> N" for N
    using writes_bounded[of "LogBuffer_init N" N cs]
    by (simp add: LogBuffer_init_def deque_init_def)
  have 2: "buffer b = b0 # bs \<Longrightarrow> length (buffer b) \<le> maxlen b \<Longrightarrow> splitlines c = l0 # ls \<Longrightarrow>
        LogBuffer_write b c =
          (Inr (), b\<lparr>buffer := take (maxlen b)
                      ((if l0 # ls = [''''] then [''''] else rev ls) @ (b0 @ l0) # bs)\<rparr>)"
    by (cases "maxlen b") (simp_all add: LogBuffer_write_def Let_def extendleft_take appendleft_def)
  have 3: "length (buffer (LogBuffer_writes LogBuffer_default cs)) \<le> 1000"
    unfolding LogBuffer_default_def by (rule 1)
  from 1[of N] 3 2 show ?thesis by blast
qed

theorem LogBuffer_bounded_witness:
  "buffer (LogBuffer_init 2) = [''''] \<and> length (buffer (LogBuffer_init 2)) \<le> maxlen (LogBuffer_init 2)
   \<and> splitlines [CHR ''a'', CHR 10, CHR ''b'', CHR 10, CHR ''c''] = [''a'', ''b'', ''c'']
   \<and> LogBuffer_write (LogBuffer_init 2) [CHR ''a'', CHR 10, CHR ''b'', CHR 10, CHR ''c''] =
       (Inr (), \<lparr>buffer = [''c'', ''b''], maxlen = 2\<rparr>)"
proof -
  have b: "buffer (LogBuffer_init 2) = [[]]" "length (buffer (LogBuffer_init 2)) \<le> maxlen (LogBuffer_init 2)"
    by (simp_all add: LogBuffer_init_def deque_init_def)
  have s: "splitlines [CHR ''a'', CHR 10, CHR ''b'', CHR 10, CHR ''c''] = [''a'', ''b'', ''c'']"
    by (simp add: splitlines_def linebreak_def)
  from LogBuffer_bounded[of 2 "[]" "LogBuffer_init 2" "[]" "[]"
      "[CHR ''a'', CHR 10, CHR ''b'', CHR 10, CHR ''c'']" "''a''" "[''b'', ''c'']"] b s
  show ?thesis by (simp add: LogBuffer_init_def deque_init_def)
qed


subsection \<open>wait\_for\_txs\<close>

lemma seen_included_append: "seen_included (xs @ ys) = seen_included xs @ seen_included ys"
  by (induction xs rule: seen_included.induct) auto

lemma raised_append: "raised (xs @ ys) = (raised xs \<or> raised ys)"
  by (induction xs rule: raised.induct) auto

lemma unconfirmed_Nil [simp]: "unconfirmed [] txs = txs"
  by (simp add: unconfirmed_def)

lemma unconfirmed_append: "unconfirmed (xs @ ys) txs = unconfirmed ys (unconfirmed xs txs)"
  by (auto simp: unconfirmed_def seen_included_append intro: filter_cong)

lemma distinct_unconfirmed: "distinct txs \<Longrightarrow> distinct (unconfirmed evs txs)"
  by (simp add: unconfirmed_def)

lemma poll_spec:
  "poll e b hs s = (r, s') \<Longrightarrow> b < length (heap s) \<Longrightarrow> distinct (heap s ! b) \<Longrightarrow> distinct hs \<Longrightarrow>
   set hs \<subseteq> set (heap s ! b) \<Longrightarrow> \<exists>evs. pass_post b hs s r s' evs"
proof (induction hs arbitrary: s)
  case Nil
  then have "pass_post b [] s r s' []"
    by (auto simp: pass_post_def)
  then show ?case ..
next
  case (Cons h rest)
  let ?L = "heap s ! b"
  let ?q = "getTransaction e h (now s)"
  let ?s1 = "s\<lparr>now := now s + int (latency e h (now s)), trace := trace s @ [GetTransaction (now s) h (getTransaction e h (now s))]\<rparr>"
  have s1: "eth_getTransaction e h s = (?q, ?s1)" "heap ?s1 = heap s" "now s \<le> now ?s1"
    "trace ?s1 = trace s @ [GetTransaction (now s) h ?q]"
    by (simp_all add: eth_getTransaction_def)
  have hL: "h \<in> set ?L" and hrest: "h \<notin> set rest" and drest: "distinct rest"
    using Cons.prems by auto
  show ?case
  proof (cases ?q)
    case Raises
    with Cons.prems(1) s1 have "r = Inl ClientError" "s' = ?s1" by auto
    with s1 Raises hL Cons.prems(2) have "pass_post b (h # rest) s r s' [GetTransaction (now s) h ?q]"
      by (auto simp: pass_post_def unconfirmed_def)
    then show ?thesis ..
  next
    case (Returns t)
    show ?thesis
    proof (cases "included t")
      case True
      let ?s2 = "?s1\<lparr>heap := (heap ?s1)[b := remove1 h ?L]\<rparr>"
      let ?s3 = "sleep e 100 ?s2"
      have rm: "list_remove b h ?s1 = (Inr (), ?s2)"
        using hL s1 by (simp add: list_remove_def)
      have p: "poll e b rest ?s3 = (r, s')"
        using Cons.prems(1) s1 Returns True rm by simp
      have h3: "heap ?s3 = (heap s)[b := remove1 h ?L]" "now s \<le> now ?s3"
        "trace ?s3 = trace s @ [GetTransaction (now s) h ?q, Sleep (now ?s1) 100]"
        using s1 by (simp_all add: sleep_def)
      have L3: "heap ?s3 ! b = remove1 h ?L"
        using Cons.prems(2) h3 by simp
      have "\<exists>evs. pass_post b rest ?s3 r s' evs"
      proof (rule Cons.IH[OF p])
        show "b < length (heap ?s3)" using Cons.prems(2) h3 by simp
        show "distinct (heap ?s3 ! b)" using Cons.prems(3) L3 by simp
        show "distinct rest" by (rule drest)
        show "set rest \<subseteq> set (heap ?s3 ! b)" using Cons.prems(5) hrest Cons.prems(3) L3 by auto
      qed
      then obtain evs where ev: "pass_post b rest ?s3 r s' evs" ..
      let ?evs = "[GetTransaction (now s) h ?q, Sleep (now ?s1) 100] @ evs"
      have u: "unconfirmed ?evs ?L = unconfirmed evs (remove1 h ?L)"
      proof -
        have "unconfirmed ?evs ?L = filter (\<lambda>x. x \<notin> set (h # seen_included evs)) ?L"
          using Returns True by (simp add: unconfirmed_def)
        also have "\<dots> = unconfirmed evs (remove1 h ?L)"
          using Cons.prems(3)
          by (auto simp: unconfirmed_def distinct_remove1_removeAll removeAll_filter_not_eq intro: filter_cong)
        finally show ?thesis .
      qed
      have "pass_post b (h # rest) s r s' ?evs"
        using ev h3 L3 Returns True unfolding pass_post_def u
        by (auto simp: raised_append split: sum.splits)
      then show ?thesis ..
    next
      case False
      let ?s3 = "sleep e 100 ?s1"
      have p: "poll e b rest ?s3 = (r, s')"
        using Cons.prems(1) s1 Returns False by simp
      have h3: "heap ?s3 = heap s" "now s \<le> now ?s3"
        "trace ?s3 = trace s @ [GetTransaction (now s) h ?q, Sleep (now ?s1) 100]"
        using s1 by (simp_all add: sleep_def)
      have "\<exists>evs. pass_post b rest ?s3 r s' evs"
        by (rule Cons.IH[OF p]) (use Cons.prems h3 in auto)
      then obtain evs where ev: "pass_post b rest ?s3 r s' evs" ..
      let ?evs = "[GetTransaction (now s) h ?q, Sleep (now ?s1) 100] @ evs"
      have u: "unconfirmed ?evs ?L = unconfirmed evs ?L"
        using Returns False by (simp add: unconfirmed_append) (simp add: unconfirmed_def)
      have "pass_post b (h # rest) s r s' ?evs"
        using ev h3 Returns False unfolding pass_post_def u
        by (auto simp: raised_append split: sum.splits)
      then show ?thesis ..
    qed
  qed
qed


lemma poll_frame:
  "poll e b hs s = (r, s') \<Longrightarrow>
   length (heap s') = length (heap s) \<and> (\<forall>a. a \<noteq> b \<longrightarrow> heap s' ! a = heap s ! a) \<and> now s \<le> now s'"
proof (induction hs arbitrary: s)
  case Nil
  then show ?case by simp
next
  case (Cons h rest)
  let ?s1 = "s\<lparr>now := now s + int (latency e h (now s)), trace := trace s @ [GetTransaction (now s) h (getTransaction e h (now s))]\<rparr>"
  have q: "eth_getTransaction e h s = (getTransaction e h (now s), ?s1)"
    by (simp add: eth_getTransaction_def)
  show ?case
  proof (cases "getTransaction e h (now s)")
    case Raises
    with Cons.prems q show ?thesis by auto
  next
    case (Returns t)
    show ?thesis
    proof (cases "included t \<and> h \<in> set (heap s ! b)")
      case True
      let ?s2 = "?s1\<lparr>heap := (heap s)[b := remove1 h (heap s ! b)]\<rparr>"
      have "poll e b rest (sleep e 100 ?s2) = (r, s')"
        using Cons.prems q Returns True by (simp add: list_remove_def)
      from Cons.IH[OF this] show ?thesis by (simp add: sleep_def)
    next
      case False
      show ?thesis
      proof (cases "included t")
        case True
        with False Cons.prems q Returns have "s' = ?s1" by (auto simp: list_remove_def)
        then show ?thesis by simp
      next
        case nin: False
        then have "poll e b rest (sleep e 100 ?s1) = (r, s')"
          using Cons.prems q Returns by simp
        from Cons.IH[OF this] show ?thesis by (simp add: sleep_def)
      qed
    qed
  qed
qed

text \<open>The start of a pass: the two readings of the clock and the status entry.\<close>

lemma pass_start:
  fixes s :: state and e :: env and b :: addr and out :: nat and timeout start :: int
  defines "t2 \<equiv> now s + int (tick e (now s))"
  defines "c \<equiv> out \<noteq> length (heap s ! b) \<or> int_secs (timeout - (t2 - start)) mod 10 = 0"
  defines "s1 \<equiv> snd (status b e start timeout out (snd (monotonic e s)))"
  shows "heap s1 = heap s" and "now s \<le> now s1"
    and "trace s1 = trace s @ Monotonic (now s) # Monotonic t2 #
           (if c then [LogDebug (length (heap s ! b)) (int_secs (timeout - (t2 - start)))] else [])"
    and "fst (status b e start timeout out (snd (monotonic e s))) =
           (if c then length (heap s ! b) else out)"
  unfolding s1_def c_def t2_def
  by (simp_all add: status_def monotonic_def log_debug_def Let_def)

lemma pass_start_silent:
  "\<exists>lg. trace (snd (status b e start timeout out (snd (monotonic e s)))) = trace s @ lg
        \<and> seen_included lg = [] \<and> \<not> raised lg"
proof -
  let ?t2 = "now s + int (tick e (now s))"
  let ?c = "out \<noteq> length (heap s ! b) \<or> int_secs (timeout - (?t2 - start)) mod 10 = 0"
  let ?lg = "Monotonic (now s) # Monotonic ?t2 #
           (if ?c then [LogDebug (length (heap s ! b)) (int_secs (timeout - (?t2 - start)))] else [])"
  have "trace (snd (status b e start timeout out (snd (monotonic e s)))) = trace s @ ?lg"
    by (rule pass_start(3))
  moreover have "seen_included ?lg = []" "\<not> raised ?lg" by simp_all
  ultimately show ?thesis by blast
qed

lemma wait_loop_empty: "heap s ! b = [] \<Longrightarrow> wait_loop e b start timeout out s = Some (Inr (), s)"
  by (subst wait_loop.simps) simp

lemma wait_loop_deadline:
  "heap s ! b \<noteq> [] \<Longrightarrow> \<not> now s - start < timeout \<Longrightarrow>
   wait_loop e b start timeout out s = Some (Inr (), snd (monotonic e s))"
  by (subst wait_loop.simps) (simp add: monotonic_def)

lemma wait_loop_pass:
  assumes "heap s ! b \<noteq> []" and "now s - start < timeout"
    and "poll e b (heap s ! b) (snd (status b e start timeout out (snd (monotonic e s)))) = (r2, s2)"
  shows "wait_loop e b start timeout out s =
     (case r2 of
        Inl err \<Rightarrow> Some (Inl err, s2)
      | Inr u \<Rightarrow> wait_loop e b start timeout
                   (fst (status b e start timeout out (snd (monotonic e s)))) (sleep e 500 s2))"
proof -
  have h: "heap (snd (status b e start timeout out (snd (monotonic e s)))) = heap s"
    by (rule pass_start(1))
  show ?thesis
    using assms h
    by (subst wait_loop.simps) (simp add: monotonic_def split_beta split: sum.splits)
qed

lemma loop_post_compose:
  assumes pp: "pass_post b hs s1 (Inr ()) s2 evs1"
    and lp: "loop_post b start timeout (sleep e 500 s2) r s' evs2"
    and s1: "heap s1 = heap s" "now s \<le> now s1" "trace s1 = trace s @ lg"
      "seen_included lg = []" "\<not> raised lg"
    and b: "b < length (heap s)"
  shows "loop_post b start timeout s r s' (lg @ evs1 @ Sleep (now s2) 500 # evs2)"
proof -
  let ?s3 = "sleep e 500 s2"
  have h3: "heap ?s3 = heap s2" "now s2 \<le> now ?s3" "trace ?s3 = trace s2 @ [Sleep (now s2) 500]"
    by (simp_all add: sleep_def)
  have h2: "heap s2 = (heap s)[b := unconfirmed evs1 (heap s ! b)]" "now s \<le> now s2"
    "trace s2 = trace s @ lg @ evs1" "\<not> raised evs1"
    using pp s1 by (simp_all add: pass_post_def)
  have u: "unconfirmed (lg @ evs1 @ Sleep (now s2) 500 # evs2) (heap s ! b)
      = unconfirmed evs2 (unconfirmed evs1 (heap s ! b))"
    using s1(4) by (simp add: unconfirmed_def seen_included_append)
  have l: "evs2 \<noteq> [] \<Longrightarrow> last (lg @ evs1 @ Sleep (now s2) 500 # evs2) = last evs2"
    by simp
  show ?thesis
    using lp h2 h3 b s1(5) l unfolding loop_post_def u
    by (auto simp: raised_append split: sum.splits)
qed

lemma wait_loop_terminates: "\<exists>y. wait_loop e b start timeout out s = Some y"
proof (induction "nat (timeout - (now s - start))" arbitrary: out s rule: less_induct)
  case less
  let ?s1 = "snd (status b e start timeout out (snd (monotonic e s)))"
  let ?out' = "fst (status b e start timeout out (snd (monotonic e s)))"
  consider "heap s ! b = []" | "heap s ! b \<noteq> []" "\<not> now s - start < timeout"
    | "heap s ! b \<noteq> []" "now s - start < timeout" by blast
  then show ?case
  proof cases
    case 1
    then show ?thesis by (simp add: wait_loop_empty)
  next
    case 2
    then show ?thesis by (simp add: wait_loop_deadline)
  next
    case 3
    obtain r2 s2 where p: "poll e b (heap s ! b) ?s1 = (r2, s2)"
      by (cases "poll e b (heap s ! b) ?s1") auto
    note unf = wait_loop_pass[OF 3 p]
    show ?thesis
    proof (cases r2)
      case (Inl err)
      with unf show ?thesis by simp
    next
      case (Inr u)
      have "now ?s1 \<le> now s2" using poll_frame[OF p] by simp
      moreover have "now s \<le> now ?s1" by (rule pass_start(2))
      ultimately have "now s \<le> now s2" by linarith
      then have "nat (timeout - (now (sleep e 500 s2) - start)) < nat (timeout - (now s - start))"
        using 3 by (simp add: sleep_def)
      from less[OF this] unf Inr show ?thesis by simp
    qed
  qed
qed

lemma wait_loop_spec:
  "wait_loop e b start timeout out s = Some y \<Longrightarrow> b < length (heap s) \<Longrightarrow> distinct (heap s ! b) \<Longrightarrow>
   \<exists>evs. loop_post b start timeout s (fst y) (snd y) evs"
proof (induction "nat (timeout - (now s - start))" arbitrary: out s rule: less_induct)
  case less
  note b = less.prems(2) and d = less.prems(3)
  let ?L = "heap s ! b"
  let ?s1 = "snd (status b e start timeout out (snd (monotonic e s)))"
  let ?out' = "fst (status b e start timeout out (snd (monotonic e s)))"
  consider "?L = []" | "?L \<noteq> []" "\<not> now s - start < timeout"
    | "?L \<noteq> []" "now s - start < timeout" by blast
  then show ?case
  proof cases
    case 1
    with less.prems(1) have "y = (Inr (), s)" by (simp add: wait_loop_empty)
    with 1 have "loop_post b start timeout s (fst y) (snd y) []"
      using b list_update_id[of "heap s" b] by (simp add: loop_post_def)
    then show ?thesis ..
  next
    case 2
    with less.prems(1) have "y = (Inr (), snd (monotonic e s))" by (simp add: wait_loop_deadline)
    with 2 have "loop_post b start timeout s (fst y) (snd y) [Monotonic (now s)]"
      using b by (simp add: loop_post_def monotonic_def unconfirmed_def)
    then show ?thesis ..
  next
    case 3
    obtain lg where lg: "trace ?s1 = trace s @ lg" "seen_included lg = []" "\<not> raised lg"
      using pass_start_silent[of b e start timeout out s] by blast
    have s1: "heap ?s1 = heap s" "now s \<le> now ?s1"
      by (rule pass_start(1), rule pass_start(2))
    obtain r2 s2 where p: "poll e b ?L ?s1 = (r2, s2)"
      by (cases "poll e b ?L ?s1") auto
    have "\<exists>evs. pass_post b ?L ?s1 r2 s2 evs"
      by (rule poll_spec[OF p]) (use b d s1 in auto)
    then obtain evs1 where pp: "pass_post b ?L ?s1 r2 s2 evs1" ..
    note unf = wait_loop_pass[OF 3 p]
    show ?thesis
    proof (cases r2)
      case (Inl err)
      with unf less.prems(1) have y: "y = (Inl err, s2)" by simp
      have "loop_post b start timeout s (fst y) (snd y) (lg @ evs1)"
        using pp Inl y s1 lg b unfolding pass_post_def loop_post_def
        by (auto simp: raised_append unconfirmed_def seen_included_append)
      then show ?thesis ..
    next
      case (Inr u)
      with unf less.prems(1)
      have w: "wait_loop e b start timeout ?out' (sleep e 500 s2) = Some y" by simp
      have h2: "heap s2 = (heap s)[b := unconfirmed evs1 ?L]" "now s \<le> now s2"
        using pp s1 by (simp_all add: pass_post_def)
      have m: "nat (timeout - (now (sleep e 500 s2) - start)) < nat (timeout - (now s - start))"
        using 3 h2 by (simp add: sleep_def)
      have "\<exists>evs. loop_post b start timeout (sleep e 500 s2) (fst y) (snd y) evs"
        by (rule less.hyps[OF m w]) (use h2 b d in \<open>simp_all add: sleep_def distinct_unconfirmed\<close>)
      then obtain evs2 where
        lp: "loop_post b start timeout (sleep e 500 s2) (fst y) (snd y) evs2" ..
      have "pass_post b ?L ?s1 (Inr ()) s2 evs1" using pp Inr by simp
      from loop_post_compose[OF this lp s1 lg b]
      show ?thesis ..
    qed
  qed
qed

lemma wait_loop_frame:
  "wait_loop e b start timeout out s = Some y \<Longrightarrow>
   length (heap (snd y)) = length (heap s) \<and> (\<forall>a. a \<noteq> b \<longrightarrow> heap (snd y) ! a = heap s ! a)"
proof (induction "nat (timeout - (now s - start))" arbitrary: out s rule: less_induct)
  case less
  let ?L = "heap s ! b"
  let ?s1 = "snd (status b e start timeout out (snd (monotonic e s)))"
  let ?out' = "fst (status b e start timeout out (snd (monotonic e s)))"
  consider "?L = []" | "?L \<noteq> []" "\<not> now s - start < timeout"
    | "?L \<noteq> []" "now s - start < timeout" by blast
  then show ?case
  proof cases
    case 1
    with less.prems have "y = (Inr (), s)" by (simp add: wait_loop_empty)
    then show ?thesis by simp
  next
    case 2
    with less.prems have "y = (Inr (), snd (monotonic e s))" by (simp add: wait_loop_deadline)
    then show ?thesis by (simp add: monotonic_def)
  next
    case 3
    have s1: "heap ?s1 = heap s" "now s \<le> now ?s1"
      by (rule pass_start(1), rule pass_start(2))
    obtain r2 s2 where p: "poll e b ?L ?s1 = (r2, s2)"
      by (cases "poll e b ?L ?s1") auto
    note f = poll_frame[OF p]
    note unf = wait_loop_pass[OF 3 p]
    show ?thesis
    proof (cases r2)
      case (Inl err)
      with unf less.prems have "y = (Inl err, s2)" by simp
      with f s1 show ?thesis by simp
    next
      case (Inr u)
      with unf less.prems
      have w: "wait_loop e b start timeout ?out' (sleep e 500 s2) = Some y" by simp
      have m: "nat (timeout - (now (sleep e 500 s2) - start)) < nat (timeout - (now s - start))"
        using 3 f s1 by (simp add: sleep_def)
      from less.hyps[OF m w] f s1 show ?thesis by (simp add: sleep_def)
    qed
  qed
qed

text \<open>The state in which the loop is entered: \<open>start\<close> read, the list copied.\<close>

lemma wait_for_txs_unfold:
  fixes s :: state and e :: env and a :: addr
  defines "s1 \<equiv> s\<lparr>now := now s + int (tick e (now s)), trace := trace s @ [Monotonic (now s)],
                   heap := heap s @ [heap s ! a]\<rparr>"
  assumes w: "wait_loop e (length (heap s)) (now s) timeout 0 s1 = Some y"
  shows "wait_for_txs e a timeout s =
     Some (case fst y of
             Inl err \<Rightarrow> (Inl err, snd y)
           | Inr u \<Rightarrow>
               if heap (snd y) ! length (heap s) \<noteq> []
               then (Inl (ScenarioTxError (timeout_message (heap (snd y) ! length (heap s)))), snd y)
               else (Inr (), snd y))"
  using w unfolding s1_def
  by (cases y) (simp add: wait_for_txs_def monotonic_def list_copy_def split: sum.splits)

lemma wait_for_txs_some: "\<exists>r s'. wait_for_txs e a timeout s = Some (r, s')"
proof -
  obtain y where
    "wait_loop e (length (heap s)) (now s) timeout 0
       (s\<lparr>now := now s + int (tick e (now s)), trace := trace s @ [Monotonic (now s)],
          heap := heap s @ [heap s ! a]\<rparr>) = Some y"
    using wait_loop_terminates by blast
  from wait_for_txs_unfold[OF this] show ?thesis
    by (metis surj_pair)
qed

lemma wait_for_txs_frame:
  assumes "wait_for_txs e a timeout s = Some (r, s')"
  shows "take (length (heap s)) (heap s') = heap s"
proof -
  let ?b = "length (heap s)"
  let ?s1 = "s\<lparr>now := now s + int (tick e (now s)), trace := trace s @ [Monotonic (now s)],
                heap := heap s @ [heap s ! a]\<rparr>"
  obtain y where w: "wait_loop e ?b (now s) timeout 0 ?s1 = Some y"
    using wait_loop_terminates by blast
  have s': "s' = snd y"
    using assms wait_for_txs_unfold[OF w] by (auto split: sum.splits if_splits)
  from wait_loop_frame[OF w]
  have l: "length (heap s') = Suc ?b"
    and k: "\<forall>i. i \<noteq> ?b \<longrightarrow> heap s' ! i = (heap s @ [heap s ! a]) ! i"
    unfolding s' by simp_all
  show ?thesis
    by (rule nth_equalityI) (use l k in \<open>auto simp: nth_append\<close>)
qed

lemma wait_for_txs_spec:
  assumes run: "wait_for_txs e a timeout s = Some (r, s')"
    and a: "a < length (heap s)" and d: "distinct (heap s ! a)"
  shows "\<exists>evs. trace s' = trace s @ evs
      \<and> heap s' = heap s @ [unconfirmed evs (heap s ! a)]
      \<and> now s \<le> now s'
      \<and> (raised evs \<longrightarrow> r = Inl ClientError \<and> unconfirmed evs (heap s ! a) \<noteq> []
            \<and> (\<exists>t h. evs \<noteq> [] \<and> last evs = GetTransaction t h Raises))
      \<and> (\<not> raised evs \<longrightarrow>
            r = (if unconfirmed evs (heap s ! a) = [] then Inr ()
                 else Inl (ScenarioTxError (timeout_message (unconfirmed evs (heap s ! a)))))
            \<and> (unconfirmed evs (heap s ! a) \<noteq> [] \<longrightarrow> timeout \<le> now s' - now s))"
proof -
  let ?b = "length (heap s)"
  let ?L = "heap s ! a"
  let ?s1 = "s\<lparr>now := now s + int (tick e (now s)), trace := trace s @ [Monotonic (now s)],
                heap := heap s @ [heap s ! a]\<rparr>"
  obtain y where w: "wait_loop e ?b (now s) timeout 0 ?s1 = Some y"
    using wait_loop_terminates by blast
  have s1: "?b < length (heap ?s1)" "distinct (heap ?s1 ! ?b)"
    using d by simp_all
  from wait_loop_spec[OF w s1]
  obtain evs where lp: "loop_post ?b (now s) timeout ?s1 (fst y) (snd y) evs" ..
  let ?evs = "Monotonic (now s) # evs"
  have u: "unconfirmed ?evs ?L = unconfirmed evs ?L"
    by (simp add: unconfirmed_def)
  have hp: "heap (snd y) = heap s @ [unconfirmed evs ?L]"
    "heap (snd y) ! ?b = unconfirmed evs ?L"
    using lp by (simp_all add: loop_post_def)
  have res: "(r, s') = (case fst y of Inl err \<Rightarrow> (Inl err, snd y)
       | Inr u \<Rightarrow> if unconfirmed evs ?L \<noteq> []
            then (Inl (ScenarioTxError (timeout_message (unconfirmed evs ?L))), snd y)
            else (Inr (), snd y))"
    using run wait_for_txs_unfold[OF w] by (auto simp: hp(2) split: sum.splits)
  have l: "evs \<noteq> [] \<Longrightarrow> last ?evs = last evs" by simp
  have "trace s' = trace s @ ?evs
      \<and> heap s' = heap s @ [unconfirmed ?evs ?L]
      \<and> now s \<le> now s'
      \<and> (raised ?evs \<longrightarrow> r = Inl ClientError \<and> unconfirmed ?evs ?L \<noteq> []
            \<and> (\<exists>t h. ?evs \<noteq> [] \<and> last ?evs = GetTransaction t h Raises))
      \<and> (\<not> raised ?evs \<longrightarrow>
            r = (if unconfirmed ?evs ?L = [] then Inr ()
                 else Inl (ScenarioTxError (timeout_message (unconfirmed ?evs ?L))))
            \<and> (unconfirmed ?evs ?L \<noteq> [] \<longrightarrow> timeout \<le> now s' - now s))"
    unfolding u using lp res hp l unfolding loop_post_def
    by (cases "fst y") (auto split: if_splits)
  then show ?thesis ..
qed

lemma events_of_append: "trace s' = trace s @ evs \<Longrightarrow> events_of s s' = evs"
  by (simp add: events_of_def)








text \<open>
  C5. \<open>wait_for_txs\<close> returns or raises for every list of hashes, every timeout and
  every client whose queries come back: each pass ends with a sleep of at least
  500 ms, so the time left before the deadline decreases until the loop ends.
\<close>

theorem wait_for_txs_terminates:
  "(\<exists>r s'. wait_for_txs e a timeout s = Some (r, s'))
   \<and> (\<exists>r s'. wait_for_txs_default e a s = Some (r, s'))"
  unfolding wait_for_txs_default_def by (simp add: wait_for_txs_some)

text \<open>
  C6. When \<open>wait_for_txs\<close> returns or raises, the caller's list holds what it held
  before the call: the hashes are removed from the copy made in line 97.
\<close>

theorem wait_for_txs_reads_only:
  assumes "wait_for_txs e a timeout s = Some (r, s')" and "a < length (heap s)"
  shows "heap s' ! a = heap s ! a"
proof -
  have "take (length (heap s)) (heap s') ! a = heap s ! a"
    using wait_for_txs_frame[OF assms(1)] by simp
  with assms(2) show ?thesis by simp
qed

theorem wait_for_txs_reads_only_witness:
  "(0::nat) < length (heap two_hashes)
   \<and> fst (the (wait_for_txs confirms_tx2_late 0 5000 two_hashes)) = Inr ()
   \<and> heap (snd (the (wait_for_txs confirms_tx2_late 0 5000 two_hashes))) =
       [[''tx1'', ''tx2''], []]
   \<and> heap (snd (the (wait_for_txs confirms_tx2_late 0 5000 two_hashes))) ! 0 =
       heap two_hashes ! 0"
  (is "?a \<and> ?r \<and> ?h \<and> ?c")
proof -
  have a: ?a by (simp add: two_hashes_def)
  have r: ?r and h: ?h by code_simp+
  obtain r s' where run: "wait_for_txs confirms_tx2_late 0 5000 two_hashes = Some (r, s')"
    using wait_for_txs_some by blast
  from wait_for_txs_reads_only[OF run a] have ?c by (simp add: run)
  with a r h show ?thesis by blast
qed

text \<open>
  C1, as the source has it. For a list of distinct hashes, \<open>wait_for_txs\<close> raises its
  timeout error exactly when no query has raised and, when the loop ends, some hash
  has not been seen as included; the deadline has then passed, and the message
  lists exactly the hashes of the caller's list that no query has seen included,
  in the caller's order. It returns exactly when no query has raised and every hash
  has been seen included: nothing is returned for a part of them. When a query has
  raised, the call ends with the client's exception.
\<close>

theorem wait_for_txs_timeout_error:
  assumes "wait_for_txs e a timeout s = Some (r, s')"
    and "a < length (heap s)" and "distinct (heap s ! a)"
  shows "((\<exists>m. r = Inl (ScenarioTxError m)) \<longleftrightarrow>
            \<not> raised (events_of s s') \<and> unconfirmed (events_of s s') (heap s ! a) \<noteq> [])
     \<and> (\<forall>m. r = Inl (ScenarioTxError m) \<longrightarrow>
            m = timeout_message (unconfirmed (events_of s s') (heap s ! a))
            \<and> timeout \<le> now s' - now s)
     \<and> (r = Inr () \<longleftrightarrow>
            \<not> raised (events_of s s') \<and> unconfirmed (events_of s s') (heap s ! a) = [])
     \<and> (raised (events_of s s') \<longrightarrow> r = Inl ClientError)"
proof -
  from wait_for_txs_spec[OF assms] obtain evs where
    e: "trace s' = trace s @ evs" and
    r: "raised evs \<longrightarrow> r = Inl ClientError" and
    n: "\<not> raised evs \<longrightarrow>
            r = (if unconfirmed evs (heap s ! a) = [] then Inr ()
                 else Inl (ScenarioTxError (timeout_message (unconfirmed evs (heap s ! a)))))
            \<and> (unconfirmed evs (heap s ! a) \<noteq> [] \<longrightarrow> timeout \<le> now s' - now s)"
    by blast
  have ev: "events_of s s' = evs" by (rule events_of_append[OF e])
  show ?thesis
    using r n unfolding ev by (cases "raised evs") (auto split: if_splits)
qed

theorem wait_for_txs_timeout_error_witness:
  "wait_for_txs confirms_tx2_late 0 1000 two_hashes =
     Some (Inl (ScenarioTxError ''Timeout waiting for txhashes: tx2''),
       \<lparr>heap = [[''tx1'', ''tx2''], [''tx2'']], now = 1300,
        trace =
          [Monotonic 0, Monotonic 0, Monotonic 0, LogDebug 2 1,
           GetTransaction 0 ''tx1'' (Returns (Some (Tx (Some 7)))), Sleep 0 100,
           GetTransaction 100 ''tx2'' (Returns (Some (Tx None))), Sleep 100 100,
           Sleep 200 500,
           Monotonic 700, Monotonic 700, LogDebug 1 0,
           GetTransaction 700 ''tx2'' (Returns (Some (Tx None))), Sleep 700 100,
           Sleep 800 500,
           Monotonic 1300]\<rparr>)
   \<and> (0::nat) < length (heap two_hashes) \<and> distinct (heap two_hashes ! 0)
   \<and> ''Timeout waiting for txhashes: tx2'' =
       timeout_message (unconfirmed (events_of two_hashes
         \<lparr>heap = [[''tx1'', ''tx2''], [''tx2'']], now = 1300,
          trace =
            [Monotonic 0, Monotonic 0, Monotonic 0, LogDebug 2 1,
             GetTransaction 0 ''tx1'' (Returns (Some (Tx (Some 7)))), Sleep 0 100,
             GetTransaction 100 ''tx2'' (Returns (Some (Tx None))), Sleep 100 100,
             Sleep 200 500,
             Monotonic 700, Monotonic 700, LogDebug 1 0,
             GetTransaction 700 ''tx2'' (Returns (Some (Tx None))), Sleep 700 100,
             Sleep 800 500,
             Monotonic 1300]\<rparr>) (heap two_hashes ! 0))
   \<and> unconfirmed (events_of two_hashes
         \<lparr>heap = [[''tx1'', ''tx2''], [''tx2'']], now = 1300,
          trace =
            [Monotonic 0, Monotonic 0, Monotonic 0, LogDebug 2 1,
             GetTransaction 0 ''tx1'' (Returns (Some (Tx (Some 7)))), Sleep 0 100,
             GetTransaction 100 ''tx2'' (Returns (Some (Tx None))), Sleep 100 100,
             Sleep 200 500,
             Monotonic 700, Monotonic 700, LogDebug 1 0,
             GetTransaction 700 ''tx2'' (Returns (Some (Tx None))), Sleep 700 100,
             Sleep 800 500,
             Monotonic 1300]\<rparr>) (heap two_hashes ! 0) = [''tx2'']"
  (is "?run \<and> ?a \<and> ?d \<and> ?m \<and> ?u")
proof -
  have run: ?run by code_simp
  have a: ?a and d: ?d by (simp_all add: two_hashes_def)
  have u: ?u
    by (simp add: two_hashes_def events_of_def unconfirmed_def included_def)
  from wait_for_txs_timeout_error[OF run a d] have ?m by blast
  with run a d u show ?thesis by blast
qed

text \<open>
  C1, as specified, fails: both hashes are still unconfirmed when the timeout of
  1000 ms elapses, during the query issued at 700 ms, and the query issued at
  1200 ms raises; the call ends with the client's exception, not with the timeout
  error.
\<close>

theorem wait_for_txs_timeout_error_counterexample:
  "wait_for_txs fails_late 0 1000 two_hashes =
     Some (Inl ClientError,
       \<lparr>heap = [[''tx1'', ''tx2''], [''tx1'', ''tx2'']], now = 1200,
        trace =
          [Monotonic 0, Monotonic 0, Monotonic 0, LogDebug 2 1,
           GetTransaction 0 ''tx1'' (Returns (Some (Tx None))), Sleep 0 100,
           GetTransaction 100 ''tx2'' (Returns (Some (Tx None))), Sleep 100 100,
           Sleep 200 500,
           Monotonic 700, Monotonic 700, LogDebug 2 0,
           GetTransaction 700 ''tx1'' (Returns (Some (Tx None))), Sleep 1100 100,
           GetTransaction 1200 ''tx2'' Raises]\<rparr>)"
  by code_simp

text \<open>
  C2. For a list of distinct hashes, if during the call the client has answered,
  for every hash, some query with a transaction whose \<open>blockNumber\<close> is not
  \<open>None\<close>, then \<open>wait_for_txs\<close> returns and raises nothing.
\<close>

theorem wait_for_txs_success:
  assumes "wait_for_txs e a timeout s = Some (r, s')"
    and "a < length (heap s)" and "distinct (heap s ! a)"
    and "set (heap s ! a) \<subseteq> set (seen_included (events_of s s'))"
  shows "r = Inr ()"
proof -
  from wait_for_txs_spec[OF assms(1-3)] obtain evs where
    e: "trace s' = trace s @ evs" and
    r: "raised evs \<longrightarrow> unconfirmed evs (heap s ! a) \<noteq> []" and
    n: "\<not> raised evs \<longrightarrow>
            r = (if unconfirmed evs (heap s ! a) = [] then Inr ()
                 else Inl (ScenarioTxError (timeout_message (unconfirmed evs (heap s ! a)))))"
    by blast
  have ev: "events_of s s' = evs" by (rule events_of_append[OF e])
  have "unconfirmed evs (heap s ! a) = []"
    using assms(4) unfolding ev by (auto simp: unconfirmed_def filter_empty_conv)
  with r n show ?thesis by auto
qed

theorem wait_for_txs_success_witness:
  "(0::nat) < length (heap two_hashes) \<and> distinct (heap two_hashes ! 0)
   \<and> set (heap two_hashes ! 0) \<subseteq>
       set (seen_included (events_of two_hashes
              (snd (the (wait_for_txs confirms_tx2_late 0 5000 two_hashes)))))
   \<and> fst (the (wait_for_txs confirms_tx2_late 0 5000 two_hashes)) = Inr ()"
  (is "?a \<and> ?d \<and> ?h \<and> ?c")
proof -
  have a: ?a and d: ?d by (simp_all add: two_hashes_def)
  have h: ?h by code_simp
  obtain r s' where run: "wait_for_txs confirms_tx2_late 0 5000 two_hashes = Some (r, s')"
    using wait_for_txs_some by blast
  from h have "set (heap two_hashes ! 0) \<subseteq> set (seen_included (events_of two_hashes s'))"
    by (simp add: run)
  from wait_for_txs_success[OF run a d this] have ?c by (simp add: run)
  with a d h show ?thesis by blast
qed

text \<open>
  C3, as the source has it. \<open>wait_for_txs\<close> does not catch what \<open>getTransaction\<close>
  raises: the call ends with the client's exception exactly when a query has raised,
  and that query is the last thing the call did; nothing is logged about it and no
  further poll is made.
\<close>

theorem wait_for_txs_query_failure:
  assumes "wait_for_txs e a timeout s = Some (r, s')"
    and "a < length (heap s)" and "distinct (heap s ! a)"
  shows "(r = Inl ClientError \<longleftrightarrow> raised (events_of s s'))
     \<and> (raised (events_of s s') \<longrightarrow>
          (\<exists>t h. events_of s s' \<noteq> [] \<and> last (events_of s s') = GetTransaction t h Raises))"
proof -
  from wait_for_txs_spec[OF assms] obtain evs where
    e: "trace s' = trace s @ evs" and
    r: "raised evs \<longrightarrow> r = Inl ClientError \<and> unconfirmed evs (heap s ! a) \<noteq> []
            \<and> (\<exists>t h. evs \<noteq> [] \<and> last evs = GetTransaction t h Raises)" and
    n: "\<not> raised evs \<longrightarrow>
            r = (if unconfirmed evs (heap s ! a) = [] then Inr ()
                 else Inl (ScenarioTxError (timeout_message (unconfirmed evs (heap s ! a)))))"
    by blast
  have ev: "events_of s s' = evs" by (rule events_of_append[OF e])
  show ?thesis
    using r n unfolding ev by (auto split: if_splits)
qed

theorem wait_for_txs_query_failure_witness:
  "wait_for_txs fails_once 0 5000 two_hashes =
     Some (Inl ClientError,
       \<lparr>heap = [[''tx1'', ''tx2''], [''tx1'', ''tx2'']], now = 0,
        trace = [Monotonic 0, Monotonic 0, Monotonic 0, LogDebug 2 5,
                 GetTransaction 0 ''tx1'' Raises]\<rparr>)
   \<and> (0::nat) < length (heap two_hashes) \<and> distinct (heap two_hashes ! 0)
   \<and> raised (events_of two_hashes
       \<lparr>heap = [[''tx1'', ''tx2''], [''tx1'', ''tx2'']], now = 0,
        trace = [Monotonic 0, Monotonic 0, Monotonic 0, LogDebug 2 5,
                 GetTransaction 0 ''tx1'' Raises]\<rparr>)"
  (is "?run \<and> ?a \<and> ?d \<and> ?c")
proof -
  have run: ?run by code_simp
  have a: ?a and d: ?d by (simp_all add: two_hashes_def)
  from wait_for_txs_query_failure[OF run a d] have ?c by simp
  with run a d show ?thesis by blast
qed

text \<open>
  C3, as specified, fails: the client raises once, on the first query, and
  would report both transactions as included from the next poll on; the call ends
  with the client's exception at time 0, 5000 ms before the deadline, after that one
  query.
\<close>

theorem wait_for_txs_query_failure_counterexample:
  "wait_for_txs fails_once 0 5000 two_hashes =
     Some (Inl ClientError,
       \<lparr>heap = [[''tx1'', ''tx2''], [''tx1'', ''tx2'']], now = 0,
        trace = [Monotonic 0, Monotonic 0, Monotonic 0, LogDebug 2 5,
                 GetTransaction 0 ''tx1'' Raises]\<rparr>)
   \<and> getTransaction fails_once ''tx1'' 600 = Returns (Some (Tx (Some 7)))
   \<and> getTransaction fails_once ''tx2'' 700 = Returns (Some (Tx (Some 7)))"
  by code_simp





subsection \<open>get\_or\_deploy\_token\<close>




end
